theory Spec2Isabelle
  imports Main "HOL-Library.AList"
begin

section \<open>Data model of the bookings report\<close>

text \<open>
  The classes of \<^verbatim>\<open>solution.py\<close> become records. \<^verbatim>\<open>Station\<close> and \<^verbatim>\<open>Leg\<close> define no
  \<^verbatim>\<open>__eq__\<close>, so Python compares and hashes them by object identity; the records carry
  that identity as a field (\<open>station_id\<close>, \<open>leg_id\<close>), and two record values denote the
  same object exactly when they are equal. The back-reference \<^verbatim>\<open>service\<close> of a \<^verbatim>\<open>Leg\<close> and
  of an \<^verbatim>\<open>OD\<close> is the service that owns them: the functions that follow it take that
  service as an argument. Python integers are unbounded, hence \<open>int\<close>. Prices are
  integers, as the keys of \<^verbatim>\<open>pricing\<close> are annotated and as every price of the source's
  scenario is, so sums of money are exact; the rounding of floating-point prices is not
  modelled. A \<^verbatim>\<open>dict\<close> keeps insertion order, and an assignment to a present key keeps
  the key's position: it is an association list written with \<open>AList.update\<close>.
\<close>

type_synonym date = int

datatype error = KeyError | UnboundLocalError

record station =
  station_id :: nat
  station_name :: string

record passenger =
  p_origin :: station
  p_destination :: station
  sale_day_x :: int
  price :: int

record leg =
  leg_id :: nat
  leg_origin :: station
  leg_destination :: station

record od =
  od_origin :: station
  od_destination :: station
  passengers :: "passenger list"

record service =
  service_name :: string
  departure_date :: date
  legs :: "leg list"
  ods :: "((station \<times> station) \<times> od) list"

type_synonym pricing = "(int \<times> int) list"
type_synonym demand = "int \<rightharpoonup> int"
type_synonym demand_matrix = "(int \<times> demand) list"
type_synonym triplet = "int \<times> int \<times> int"

definition Station :: "nat \<Rightarrow> string \<Rightarrow> station" where
  "Station i n = \<lparr>station_id = i, station_name = n\<rparr>"

definition Passenger :: "station \<Rightarrow> station \<Rightarrow> int \<Rightarrow> int \<Rightarrow> passenger" where
  "Passenger orig dest day amount =
     \<lparr>p_origin = orig, p_destination = dest, sale_day_x = day, price = amount\<rparr>"

definition Leg :: "nat \<Rightarrow> station \<Rightarrow> station \<Rightarrow> leg" where
  "Leg i orig dest = \<lparr>leg_id = i, leg_origin = orig, leg_destination = dest\<rparr>"

definition OD :: "station \<Rightarrow> station \<Rightarrow> od" where
  "OD orig dest = \<lparr>od_origin = orig, od_destination = dest, passengers = []\<rparr>"

definition Service :: "string \<Rightarrow> date \<Rightarrow> service" where
  "Service n d = \<lparr>service_name = n, departure_date = d, legs = [], ods = []\<rparr>"

text \<open>\<^verbatim>\<open>Service.day_x\<close> reads the clock; the model takes today's date as an argument.\<close>

definition day_x :: "date \<Rightarrow> service \<Rightarrow> int" where
  "day_x today s = today - departure_date s"

section \<open>Service: loading an itinerary and a passenger manifest\<close>

text \<open>
  The inner loop of \<^verbatim>\<open>load_itinerary\<close> over \<^verbatim>\<open>islice(itinerary, i)\<close>. The loop variable
  \<^verbatim>\<open>prev\<close> outlives the loop, so it is threaded as an optional value: \<open>None\<close> while it
  is unbound.
\<close>

fun load_ods :: "station list \<Rightarrow> station \<Rightarrow> station option \<Rightarrow> service
    \<Rightarrow> station option \<times> service" where
  "load_ods [] stn prev s = (prev, s)"
| "load_ods (p # rest) stn prev s =
     load_ods rest stn (Some p) (s\<lparr>ods := AList.update (p, stn) (OD p stn) (ods s)\<rparr>)"

text \<open>
  The outer loop over \<^verbatim>\<open>enumerate(itinerary)\<close>. A new \<^verbatim>\<open>Leg\<close> object differs from every
  leg already in the list: its identity is its creation index. Reading \<^verbatim>\<open>prev\<close> while
  it is unbound would raise \<^verbatim>\<open>UnboundLocalError\<close>.
\<close>

fun load_stations :: "station list \<Rightarrow> (nat \<times> station) list \<Rightarrow> station option \<Rightarrow> service
    \<Rightarrow> error + service" where
  "load_stations itinerary [] prev s = Inr s"
| "load_stations itinerary ((i, stn) # rest) prev s =
     (if i = 0 then load_stations itinerary rest prev s
      else (case load_ods (take i itinerary) stn prev s of
              (None, s') \<Rightarrow> Inl UnboundLocalError
            | (Some p, s') \<Rightarrow>
                load_stations itinerary rest (Some p)
                  (s'\<lparr>legs := legs s' @ [Leg (length (legs s')) p stn]\<rparr>)))"

definition load_itinerary :: "station list \<Rightarrow> service \<Rightarrow> error + service" where
  "load_itinerary itinerary s = load_stations itinerary (enumerate 0 itinerary) None s"

text \<open>
  \<^verbatim>\<open>load_passenger_manifest\<close>: the subscript \<^verbatim>\<open>self.ods[...]\<close> raises \<^verbatim>\<open>KeyError\<close> on a
  missing key, after the earlier passengers were appended. The result is the exception
  raised, if any, and the service as the call leaves it.
\<close>

fun load_passenger_manifest :: "passenger list \<Rightarrow> service \<Rightarrow> error option \<times> service" where
  "load_passenger_manifest [] s = (None, s)"
| "load_passenger_manifest (p # ps) s =
     (case map_of (ods s) (p_origin p, p_destination p) of
        None \<Rightarrow> (Some KeyError, s)
      | Some x \<Rightarrow>
          load_passenger_manifest ps
            (s\<lparr>ods := AList.update (p_origin p, p_destination p)
                        (x\<lparr>passengers := passengers x @ [p]\<rparr>) (ods s)\<rparr>))"

section \<open>OD: the legs it spans\<close>

text \<open>
  \<^verbatim>\<open>OD._legs\<close> runs two loops over one iterator. The first loop yields the first leg
  that leaves the OD's origin and stops; it returns what it yielded and what is left of
  the iterator. The second loop yields from there until a leg leaves the destination.
\<close>

fun legs_first_loop :: "station \<Rightarrow> leg list \<Rightarrow> leg list \<times> leg list" where
  "legs_first_loop orig [] = ([], [])"
| "legs_first_loop orig (l # ls) =
     (if leg_origin l = orig then ([l], ls) else legs_first_loop orig ls)"

fun legs_second_loop :: "station \<Rightarrow> leg list \<Rightarrow> leg list" where
  "legs_second_loop dest [] = []"
| "legs_second_loop dest (l # ls) =
     (if leg_origin l = dest then [] else l # legs_second_loop dest ls)"

definition od_legs :: "service \<Rightarrow> od \<Rightarrow> leg list" where
  "od_legs s self =
     (case legs_first_loop (od_origin self) (legs s) of
        (yielded, rest) \<Rightarrow> yielded @ legs_second_loop (od_destination self) rest)"

section \<open>Leg: the passengers on board\<close>

fun leg_passengers_loop :: "service \<Rightarrow> leg \<Rightarrow> od list \<Rightarrow> passenger list \<Rightarrow> passenger list" where
  "leg_passengers_loop s self [] acc = acc"
| "leg_passengers_loop s self (x # xs) acc =
     (if self \<notin> set (od_legs s x) then leg_passengers_loop s self xs acc
      else leg_passengers_loop s self xs (acc @ passengers x))"

definition leg_passengers :: "service \<Rightarrow> leg \<Rightarrow> passenger list" where
  "leg_passengers s self = leg_passengers_loop s self (map snd (ods s)) []"

section \<open>OD: the history of sales\<close>

text \<open>
  \<^verbatim>\<open>itertools.groupby\<close>: a group is the longest run of consecutive elements whose key
  equals the key of the run's first element. \<^verbatim>\<open>sorted(..., key=...)\<close> is a stable sort,
  as \<open>sort_key\<close> is.
\<close>

function groupby :: "('a \<Rightarrow> 'k) \<Rightarrow> 'a list \<Rightarrow> ('k \<times> 'a list) list" where
  "groupby key [] = []"
| "groupby key (x # xs) =
     (key x, x # takeWhile (\<lambda>y. key y = key x) xs)
       # groupby key (dropWhile (\<lambda>y. key y = key x) xs)"
  by pat_completeness auto
termination
  by (relation "measure (\<lambda>(key, xs). length xs)")
     (auto simp: length_dropWhile_le less_Suc_eq_le)

text \<open>The inner loop of \<^verbatim>\<open>_history\<close> over the passengers of one group.\<close>

fun history_group :: "passenger list \<Rightarrow> int \<Rightarrow> int \<Rightarrow> int \<times> int" where
  "history_group [] head_count wallet = (head_count, wallet)"
| "history_group (p # ps) head_count wallet =
     history_group ps (head_count + 1) (wallet + price p)"

fun history_loop :: "(int \<times> passenger list) list \<Rightarrow> int \<Rightarrow> int \<Rightarrow> triplet list" where
  "history_loop [] head_count wallet = []"
| "history_loop ((day, grp) # rest) head_count wallet =
     (case history_group grp head_count wallet of
        (head_count', wallet') \<Rightarrow>
          (day, head_count', wallet') # history_loop rest head_count' wallet')"

text \<open>\<^verbatim>\<open>history\<close> is \<^verbatim>\<open>list(self._history())\<close>: the generator, run to its end.\<close>

definition history :: "od \<Rightarrow> triplet list" where
  "history self =
     history_loop (groupby sale_day_x (sort_key sale_day_x (passengers self))) 0 0"

section \<open>OD: the forecast of sales\<close>

text \<open>
  \<^verbatim>\<open>forecast\<close> is a generator that writes to the caller's \<^verbatim>\<open>pricing\<close>. A run of it to
  its end is the list of triplets it yielded, the pricing as it leaves it, and the
  exception that ended it, if any (\<^verbatim>\<open>demand[price]\<close> raises \<^verbatim>\<open>KeyError\<close> on a price
  the day's demand does not have).
\<close>

record forecast_run =
  yielded :: "triplet list"
  pricing_after :: pricing
  raised :: "error option"

text \<open>
  The inner loop over \<^verbatim>\<open>pricing.items()\<close>: it returns the entries as the loop leaves
  them, \<^verbatim>\<open>sold\<close>, \<^verbatim>\<open>money\<close> and the exception raised, if any.
\<close>

fun forecast_prices :: "demand \<Rightarrow> pricing \<Rightarrow> int \<Rightarrow> int
    \<Rightarrow> pricing \<times> int \<times> int \<times> error option" where
  "forecast_prices dem [] sold money = ([], sold, money, None)"
| "forecast_prices dem ((p, c) # rest) sold money =
     (case dem p of
        None \<Rightarrow> ((p, c) # rest, sold, money, Some KeyError)
      | Some d \<Rightarrow>
          (let x = min (d - sold) c in
           if x \<le> 0 then
             (case forecast_prices dem rest sold money of
                (rest', r) \<Rightarrow> ((p, c) # rest', r))
           else
             (case forecast_prices dem rest (sold + x) (money + p * x) of
                (rest', r) \<Rightarrow> ((p, c - x) # rest', r))))"

fun forecast_days :: "demand_matrix \<Rightarrow> pricing \<Rightarrow> int \<Rightarrow> int \<Rightarrow> forecast_run" where
  "forecast_days [] pr head_count money =
     \<lparr>yielded = [], pricing_after = pr, raised = None\<rparr>"
| "forecast_days ((day, dem) # rest) pr head_count money =
     (case forecast_prices dem pr 0 money of
        (pr', sold, money', Some e) \<Rightarrow>
          \<lparr>yielded = [], pricing_after = pr', raised = Some e\<rparr>
      | (pr', sold, money', None) \<Rightarrow>
          (let r = forecast_days rest pr' (head_count + sold) money'
           in r\<lparr>yielded := (day, head_count + sold, money') # yielded r\<rparr>))"

definition forecast :: "od \<Rightarrow> pricing \<Rightarrow> demand_matrix \<Rightarrow> forecast_run" where
  "forecast self pr dm =
     forecast_days dm pr (int (length (passengers self)))
       (sum_list (map price (passengers self)))"

section \<open>The worked scenario of the source\<close>

text \<open>
  The example data at the bottom of \<^verbatim>\<open>solution.py\<close>: three stations, the service loaded
  from the itinerary and the manifest, the pricing and the demand matrix. The service
  departs seven days after today.
\<close>

definition ply :: station where "ply = Station 0 ''ply''"
definition lpd :: station where "lpd = Station 1 ''lpd''"
definition msc :: station where "msc = Station 2 ''msc''"

definition scenario_manifest :: "passenger list" where
  "scenario_manifest =
     [Passenger ply lpd (- 30) 20, Passenger ply lpd (- 25) 30, Passenger ply lpd (- 20) 40,
      Passenger ply lpd (- 20) 40, Passenger ply msc (- 10) 50]"

definition scenario_pricing :: pricing where
  "scenario_pricing = [(10, 0), (20, 2), (30, 5), (40, 5), (50, 5)]"

definition scenario_demand_matrix :: demand_matrix where
  "scenario_demand_matrix =
     [(- 7, map_of [(10, 5), (20, 1), (30, 0), (40, 0), (50, 0)]),
      (- 6, map_of [(10, 5), (20, 2), (30, 1), (40, 1), (50, 1)]),
      (- 5, map_of [(10, 5), (20, 4), (30, 3), (40, 2), (50, 1)]),
      (- 4, map_of [(10, 5), (20, 5), (30, 4), (40, 3), (50, 1)]),
      (- 3, map_of [(10, 5), (20, 5), (30, 5), (40, 3), (50, 2)]),
      (- 2, map_of [(10, 5), (20, 5), (30, 5), (40, 4), (50, 3)]),
      (- 1, map_of [(10, 5), (20, 5), (30, 5), (40, 5), (50, 4)]),
      (0, map_of [(10, 5), (20, 5), (30, 5), (40, 5), (50, 5)])]"

definition scenario_loaded :: "date \<Rightarrow> error + service" where
  "scenario_loaded today =
     (case load_itinerary [ply, lpd, msc] (Service ''7601'' (today + 7)) of
        Inl e \<Rightarrow> Inl e
      | Inr s \<Rightarrow>
          (case load_passenger_manifest scenario_manifest s of
             (Some e, s') \<Rightarrow> Inl e
           | (None, s') \<Rightarrow> Inr s'))"

text \<open>The OD Paris-Lyon with the four passengers the manifest books on it.\<close>

definition od_ply_lpd :: od where
  "od_ply_lpd = (OD ply lpd)\<lparr>passengers := take 4 scenario_manifest\<rparr>"

section \<open>Reference definitions for the forecast\<close>

text \<open>
  The forecast as section 4.5 of the specification words it, to be compared with
  \<open>forecast\<close>: for each day, \<open>sold\<close> starts at 0 and the price levels of \<open>pricing\<close> are
  visited in order; at level \<open>p\<close> with inventory \<open>pricing[p]\<close>, \<open>want = demand[p] - sold\<close> and
  \<open>fill = min(want, count)\<close>; a level with \<open>fill \<le> 0\<close> is skipped, otherwise \<open>pricing[p]\<close>
  decreases by \<open>fill\<close>, \<open>sold\<close> grows by \<open>fill\<close> and \<open>money\<close> by \<open>p * fill\<close>; after the levels,
  \<open>head_count\<close> grows by \<open>sold\<close> and the day's triplet is emitted.
\<close>

definition spec_level :: "demand \<Rightarrow> int \<Rightarrow> pricing \<times> int \<times> int \<Rightarrow> pricing \<times> int \<times> int" where
  "spec_level dem p = (\<lambda>(pr, sold, money).
     let c = the (map_of pr p); want = the (dem p) - sold; fill = min want c
     in if fill \<le> 0 then (pr, sold, money)
        else (AList.update p (c - fill) pr, sold + fill, money + p * fill))"

definition spec_day :: "demand \<Rightarrow> pricing \<Rightarrow> int \<Rightarrow> pricing \<times> int \<times> int" where
  "spec_day dem pr money = fold (spec_level dem) (map fst pr) (pr, 0, money)"

fun spec_days :: "demand_matrix \<Rightarrow> pricing \<Rightarrow> int \<Rightarrow> int \<Rightarrow> triplet list \<times> pricing" where
  "spec_days [] pr head_count money = ([], pr)"
| "spec_days ((day, dem) # rest) pr head_count money =
     (case spec_day dem pr money of
        (pr', sold, money') \<Rightarrow>
          (case spec_days rest pr' (head_count + sold) money' of
             (out, pr'') \<Rightarrow> ((day, head_count + sold, money') # out, pr'')))"

definition spec_forecast :: "od \<Rightarrow> pricing \<Rightarrow> demand_matrix \<Rightarrow> triplet list \<times> pricing" where
  "spec_forecast self pr dm =
     spec_days dm pr (int (length (passengers self))) (sum_list (map price (passengers self)))"

text \<open>
  The seats sold on each day of a run, read off the emitted triplets: the day's increment
  of the cumulative count, the first day's against the count before the forecast.
\<close>

fun count_increments :: "int \<Rightarrow> triplet list \<Rightarrow> int list" where
  "count_increments head_count [] = []"
| "count_increments head_count ((day, n, money) # rest) =
     (n - head_count) # count_increments n rest"

section \<open>Reference definition for the history\<close>



section \<open>The worked scenario, evaluated\<close>

lemma stations_neq:
  "ply \<noteq> lpd" "lpd \<noteq> msc" "ply \<noteq> msc" "lpd \<noteq> ply" "msc \<noteq> lpd" "msc \<noteq> ply"
  by (simp_all add: ply_def lpd_def msc_def Station_def)

lemma scenario_itinerary:
  "load_itinerary [ply, lpd, msc] (Service n d) =
     Inr \<lparr>service_name = n, departure_date = d,
          legs = [Leg 0 ply lpd, Leg 1 lpd msc],
          ods = [((ply, lpd), OD ply lpd), ((ply, msc), OD ply msc), ((lpd, msc), OD lpd msc)]\<rparr>"
  by (simp add: load_itinerary_def Service_def stations_neq)

lemma scenario_loaded_eq:
  "scenario_loaded today =
     Inr \<lparr>service_name = ''7601'', departure_date = today + 7,
          legs = [Leg 0 ply lpd, Leg 1 lpd msc],
          ods = [((ply, lpd), od_ply_lpd),
                 ((ply, msc), (OD ply msc)\<lparr>passengers := [Passenger ply msc (- 10) 50]\<rparr>),
                 ((lpd, msc), OD lpd msc)]\<rparr>"
  by (simp add: scenario_loaded_def scenario_itinerary scenario_manifest_def od_ply_lpd_def
      stations_neq Passenger_def OD_def)

lemma scenario_history:
  "history od_ply_lpd = [(- 30, 1, 20), (- 25, 2, 50), (- 20, 4, 130)]"
  by (simp add: history_def od_ply_lpd_def scenario_manifest_def Passenger_def OD_def)

lemma scenario_forecast:
  "forecast od_ply_lpd scenario_pricing scenario_demand_matrix =
     \<lparr>yielded = [(- 7, 5, 150), (- 6, 6, 170), (- 5, 9, 260), (- 4, 12, 360),
                 (- 3, 15, 480), (- 2, 18, 620), (- 1, 21, 770), (0, 21, 770)],
      pricing_after = [(10, 0), (20, 0), (30, 0), (40, 0), (50, 0)],
      raised = None\<rparr>"
  by (simp add: forecast_def od_ply_lpd_def scenario_manifest_def Passenger_def OD_def
      scenario_pricing_def scenario_demand_matrix_def)

text \<open>
  Claim C2. In the worked scenario the loads raise nothing, the service's OD for
  (Paris, Lyon) holds exactly the four passengers sold on days -30, -25, -20, -20 at
  20, 30, 40, 40, its history is [(-30,1,20), (-25,2,50), (-20,4,130)], and its forecast
  for the scenario's pricing and demand matrix runs to its end and yields
  [(-7,5,150), (-6,6,170), (-5,9,260), (-4,12,360), (-3,15,480), (-2,18,620),
  (-1,21,770), (0,21,770)].
\<close>

theorem worked_scenario:
  "\<exists>s. scenario_loaded today = Inr s
     \<and> map_of (ods s) (ply, lpd) = Some od_ply_lpd
     \<and> map (\<lambda>p. (sale_day_x p, price p)) (passengers od_ply_lpd)
         = [(- 30, 20), (- 25, 30), (- 20, 40), (- 20, 40)]
     \<and> history od_ply_lpd = [(- 30, 1, 20), (- 25, 2, 50), (- 20, 4, 130)]
     \<and> yielded (forecast od_ply_lpd scenario_pricing scenario_demand_matrix)
         = [(- 7, 5, 150), (- 6, 6, 170), (- 5, 9, 260), (- 4, 12, 360),
            (- 3, 15, 480), (- 2, 18, 620), (- 1, 21, 770), (0, 21, 770)]
     \<and> raised (forecast od_ply_lpd scenario_pricing scenario_demand_matrix) = None"
proof -
  have "map (\<lambda>p. (sale_day_x p, price p)) (passengers od_ply_lpd)
          = [(- 30, 20), (- 25, 30), (- 20, 40), (- 20, 40)]"
    by (simp add: od_ply_lpd_def scenario_manifest_def Passenger_def OD_def)
  then show ?thesis
    by (simp add: scenario_loaded_eq scenario_history scenario_forecast)
qed

section \<open>Loading a passenger manifest\<close>

lemma update_present_map:
  "distinct (map fst al) \<Longrightarrow> map_of al k = Some x \<Longrightarrow>
     AList.update k v al = map (\<lambda>(k', y). (k', if k' = k then v else y)) al"
proof (induction al)
  case Nil
  then show ?case by simp
next
  case (Cons a al)
  obtain k' y where a: "a = (k', y)" by (cases a)
  show ?case
  proof (cases "k' = k")
    case True
    with Cons.prems a have "k \<notin> fst ` set al" by auto
    then have "map (\<lambda>(k', y). (k', if k' = k then v else y)) al = al"
      by (induction al) auto
    with True a show ?thesis by simp
  next
    case False
    with Cons a show ?thesis by simp
  qed
qed

lemma load_passenger_manifest_raises:
  "fst (load_passenger_manifest ps s) =
     (if \<exists>p\<in>set ps. (p_origin p, p_destination p) \<notin> fst ` set (ods s)
      then Some KeyError else None)"
proof (induction ps arbitrary: s)
  case Nil
  then show ?case by simp
next
  case (Cons p ps)
  show ?case
  proof (cases "map_of (ods s) (p_origin p, p_destination p)")
    case None
    then have "(p_origin p, p_destination p) \<notin> fst ` set (ods s)"
      by (simp add: map_of_eq_None_iff)
    with None show ?thesis by auto
  next
    case (Some x)
    then have in_keys: "(p_origin p, p_destination p) \<in> fst ` set (ods s)"
      by (metis map_of_eq_None_iff option.distinct(1))
    have "fst ` set (AList.update (p_origin p, p_destination p)
             (x\<lparr>passengers := passengers x @ [p]\<rparr>) (ods s)) = fst ` set (ods s)"
      using in_keys by (auto simp: dom_update)
    with Some in_keys Cons.IH show ?thesis by simp
  qed
qed

lemma load_passenger_manifest_state:
  "distinct (map fst (ods s)) \<Longrightarrow>
   snd (load_passenger_manifest ps s) =
     s\<lparr>ods := map (\<lambda>(k, x). (k, x\<lparr>passengers := passengers x @
               filter (\<lambda>p. (p_origin p, p_destination p) = k)
                 (takeWhile (\<lambda>p. (p_origin p, p_destination p) \<in> fst ` set (ods s)) ps)\<rparr>))
             (ods s)\<rparr>"
proof (induction ps arbitrary: s)
  case Nil
  have "map (\<lambda>(k, x). (k, x\<lparr>passengers := passengers x @ []\<rparr>)) (ods s) = ods s"
    by (induction "ods s") auto
  then show ?case by simp
next
  case (Cons p ps)
  let ?k = "(p_origin p, p_destination p)"
  let ?f = "\<lambda>good. (\<lambda>(k, x). (k, x\<lparr>passengers := passengers x @
               filter (\<lambda>p. (p_origin p, p_destination p) = k) good\<rparr>))"
  let ?good = "takeWhile (\<lambda>p. (p_origin p, p_destination p) \<in> fst ` set (ods s)) ps"
  show ?case
  proof (cases "map_of (ods s) ?k")
    case None
    then have "?k \<notin> fst ` set (ods s)"
      by (simp add: map_of_eq_None_iff)
    moreover have "map (\<lambda>(k, x). (k, x\<lparr>passengers := passengers x @ []\<rparr>)) (ods s) = ods s"
      by (induction "ods s") auto
    ultimately show ?thesis using None by simp
  next
    case (Some x)
    then have in_keys: "?k \<in> fst ` set (ods s)"
      by (metis map_of_eq_None_iff option.distinct(1))
    let ?x1 = "x\<lparr>passengers := passengers x @ [p]\<rparr>"
    let ?s1 = "s\<lparr>ods := AList.update ?k ?x1 (ods s)\<rparr>"
    let ?g = "\<lambda>(k', y). (k', if k' = ?k then ?x1 else y)"
    have upd: "ods ?s1 = map ?g (ods s)"
      using update_present_map [OF Cons.prems Some] by simp
    have keys: "fst ` set (ods ?s1) = fst ` set (ods s)"
      using in_keys by (auto simp: dom_update)
    have d1: "distinct (map fst (ods ?s1))"
      using Cons.prems by (simp add: distinct_update)
    have step: "load_passenger_manifest (p # ps) s = load_passenger_manifest ps ?s1"
      using Some by simp
    have "snd (load_passenger_manifest ps ?s1) = ?s1\<lparr>ods := map (?f ?good) (ods ?s1)\<rparr>"
      using Cons.IH [OF d1] unfolding keys .
    also have "\<dots> = s\<lparr>ods := map (?f ?good) (map ?g (ods s))\<rparr>"
      unfolding upd by simp
    also have "map (?f ?good) (map ?g (ods s)) = map (?f (p # ?good)) (ods s)"
    proof -
      have "(?f ?good) (?g e) = (?f (p # ?good)) e" if "e \<in> set (ods s)" for e
      proof -
        obtain k' y where e: "e = (k', y)" by (cases e)
        show ?thesis
        proof (cases "k' = ?k")
          case True
          with that e Some Cons.prems have "y = x" by simp
          with True e show ?thesis by simp
        next
          case False
          then have "?k \<noteq> k'" by blast
          with False e show ?thesis by simp
        qed
      qed
      then show ?thesis by simp
    qed
    also have "p # ?good =
        takeWhile (\<lambda>p. (p_origin p, p_destination p) \<in> fst ` set (ods s)) (p # ps)"
      using in_keys by simp
    finally show ?thesis unfolding step .
  qed
qed

text \<open>
  Claim C9. \<^verbatim>\<open>load_passenger_manifest\<close> raises (a \<^verbatim>\<open>KeyError\<close>, and nothing else) if and
  only if some passenger of the manifest has an (origin, destination) pair that is not
  a key of the service's ODs. The load is fail-fast: on a service whose ODs are a
  dictionary (distinct keys), it leaves every OD with exactly the passengers of its key
  that come before the first failing passenger appended, in manifest order, and appends
  no passenger at or after the failing one.
\<close>

theorem load_passenger_manifest_fail_fast:
  assumes "distinct (map fst (ods s))"
  shows "fst (load_passenger_manifest ps s) =
           (if \<exists>p\<in>set ps. (p_origin p, p_destination p) \<notin> fst ` set (ods s)
            then Some KeyError else None)
       \<and> snd (load_passenger_manifest ps s) =
           s\<lparr>ods := map (\<lambda>(k, x). (k, x\<lparr>passengers := passengers x @
                     filter (\<lambda>p. (p_origin p, p_destination p) = k)
                       (takeWhile (\<lambda>p. (p_origin p, p_destination p) \<in> fst ` set (ods s)) ps)\<rparr>))
                   (ods s)\<rparr>"
  using load_passenger_manifest_raises [of ps s] load_passenger_manifest_state [OF assms, of ps]
  by simp

theorem load_passenger_manifest_fail_fast_witness:
  "distinct (map fst [((ply, lpd), OD ply lpd), ((ply, msc), OD ply msc)])
   \<and> load_passenger_manifest
       [Passenger ply lpd (- 30) 20, Passenger lpd ply (- 25) 30, Passenger ply msc (- 10) 50]
       \<lparr>service_name = ''7601'', departure_date = 7, legs = [],
        ods = [((ply, lpd), OD ply lpd), ((ply, msc), OD ply msc)]\<rparr>
     = (Some KeyError,
        \<lparr>service_name = ''7601'', departure_date = 7, legs = [],
         ods = [((ply, lpd), (OD ply lpd)\<lparr>passengers := [Passenger ply lpd (- 30) 20]\<rparr>),
                ((ply, msc), OD ply msc)]\<rparr>)"
  using load_passenger_manifest_fail_fast
    [of "\<lparr>service_name = ''7601'', departure_date = 7, legs = [],
          ods = [((ply, lpd), OD ply lpd), ((ply, msc), OD ply msc)]\<rparr>"
        "[Passenger ply lpd (- 30) 20, Passenger lpd ply (- 25) 30, Passenger ply msc (- 10) 50]"]
  by (simp add: stations_neq Passenger_def OD_def)

section \<open>The passengers of a leg\<close>

lemma leg_passengers_loop_concat:
  "leg_passengers_loop s l xs acc =
     acc @ concat (map passengers (filter (\<lambda>x. l \<in> set (od_legs s x)) xs))"
  by (induction xs arbitrary: acc) simp_all

text \<open>
  Claim C6. The passengers of a leg are the passenger lists of the ODs of the service
  whose legs contain the leg, concatenated in the iteration order of the service's ODs,
  each list in its own order; their number is the sum of those ODs' passenger counts.
\<close>

theorem leg_passengers_concat:
  "leg_passengers s l =
     concat (map passengers (filter (\<lambda>x. l \<in> set (od_legs s x)) (map snd (ods s))))
   \<and> length (leg_passengers s l) =
     sum_list (map (\<lambda>x. length (passengers x))
       (filter (\<lambda>x. l \<in> set (od_legs s x)) (map snd (ods s))))"
  by (simp add: leg_passengers_def leg_passengers_loop_concat length_concat comp_def)

section \<open>The legs of an OD\<close>

lemma legs_first_loop_dropWhile:
  "legs_first_loop orig ls =
     (case dropWhile (\<lambda>l. leg_origin l \<noteq> orig) ls of
        [] \<Rightarrow> ([], []) | l # rest \<Rightarrow> ([l], rest))"
  by (induction ls) simp_all

lemma legs_second_loop_takeWhile:
  "legs_second_loop dest ls = takeWhile (\<lambda>l. leg_origin l \<noteq> dest) ls"
  by (induction ls) simp_all

lemma od_legs_no_origin:
  "\<forall>l\<in>set (legs s). leg_origin l \<noteq> od_origin x \<Longrightarrow> od_legs s x = []"
proof -
  assume "\<forall>l\<in>set (legs s). leg_origin l \<noteq> od_origin x"
  then have dw: "dropWhile (\<lambda>l. leg_origin l \<noteq> od_origin x) (legs s) = []"
    by simp
  show ?thesis
    unfolding od_legs_def legs_first_loop_dropWhile dw by simp
qed

lemma od_legs_span:
  assumes "\<exists>l\<in>set (legs s). leg_origin l = od_origin x"
  shows "\<exists>pre l mid post.
           legs s = pre @ l # mid @ post \<and> od_legs s x = l # mid
         \<and> (\<forall>l'\<in>set pre. leg_origin l' \<noteq> od_origin x)
         \<and> leg_origin l = od_origin x
         \<and> (\<forall>l'\<in>set mid. leg_origin l' \<noteq> od_destination x)
         \<and> (post = [] \<or> leg_origin (hd post) = od_destination x)"
proof -
  let ?P = "\<lambda>l. leg_origin l \<noteq> od_origin x"
  let ?Q = "\<lambda>l. leg_origin l \<noteq> od_destination x"
  from assms have "dropWhile ?P (legs s) \<noteq> []" by auto
  then obtain l rest where dw: "dropWhile ?P (legs s) = l # rest"
    by (cases "dropWhile ?P (legs s)") auto
  have l: "leg_origin l = od_origin x"
    using hd_dropWhile [of ?P "legs s"] dw by auto
  have split1: "legs s = takeWhile ?P (legs s) @ l # takeWhile ?Q rest @ dropWhile ?Q rest"
    using takeWhile_dropWhile_id [of ?P "legs s"] dw by simp
  have res: "od_legs s x = l # takeWhile ?Q rest"
    by (simp add: od_legs_def legs_first_loop_dropWhile legs_second_loop_takeWhile dw)
  have pre: "\<forall>l'\<in>set (takeWhile ?P (legs s)). leg_origin l' \<noteq> od_origin x"
    by (auto dest: set_takeWhileD)
  have mid: "\<forall>l'\<in>set (takeWhile ?Q rest). leg_origin l' \<noteq> od_destination x"
    by (auto dest: set_takeWhileD)
  have post: "dropWhile ?Q rest = [] \<or> leg_origin (hd (dropWhile ?Q rest)) = od_destination x"
    using hd_dropWhile [of ?Q rest] by auto
  from split1 res pre l mid post show ?thesis by blast
qed

lemma itinerary4:
  assumes "distinct [a, b, c, d]"
  shows "load_itinerary [a, b, c, d] (Service n dt) =
     Inr \<lparr>service_name = n, departure_date = dt,
          legs = [Leg 0 a b, Leg 1 b c, Leg 2 c d],
          ods = [((a, b), OD a b), ((a, c), OD a c), ((b, c), OD b c),
                 ((a, d), OD a d), ((b, d), OD b d), ((c, d), OD c d)]\<rparr>"
  using assms by (simp add: load_itinerary_def Service_def eval_nat_numeral)

text \<open>
  Claim C4. When some leg of the service leaves the OD's origin, the legs of the OD are
  a contiguous part of the service's legs: it starts at the first leg that leaves the
  origin and ends just before the first later leg that leaves the destination, or at the
  end of the legs when there is none. When no leg leaves the origin, the OD has no legs;
  nothing is raised in either case. On the service loaded from the itinerary A-B-C-D, the
  OD (A, C) has the legs A-B, B-C and the OD (B, D) has the legs B-C, C-D.
\<close>

theorem od_legs_contiguous:
  "((\<exists>l\<in>set (legs s). leg_origin l = od_origin x) \<longrightarrow>
      (\<exists>pre l mid post.
           legs s = pre @ l # mid @ post \<and> od_legs s x = l # mid
         \<and> (\<forall>l'\<in>set pre. leg_origin l' \<noteq> od_origin x)
         \<and> leg_origin l = od_origin x
         \<and> (\<forall>l'\<in>set mid. leg_origin l' \<noteq> od_destination x)
         \<and> (post = [] \<or> leg_origin (hd post) = od_destination x)))
   \<and> ((\<forall>l\<in>set (legs s). leg_origin l \<noteq> od_origin x) \<longrightarrow> od_legs s x = [])
   \<and> (distinct [a, b, c, d] \<longrightarrow>
        (\<exists>s'. load_itinerary [a, b, c, d] (Service n dt) = Inr s'
           \<and> map_of (ods s') (a, c) = Some (OD a c)
           \<and> map_of (ods s') (b, d) = Some (OD b d)
           \<and> od_legs s' (OD a c) = [Leg 0 a b, Leg 1 b c]
           \<and> od_legs s' (OD b d) = [Leg 1 b c, Leg 2 c d]))"
proof (intro conjI impI)
  assume "\<exists>l\<in>set (legs s). leg_origin l = od_origin x"
  then show "\<exists>pre l mid post.
           legs s = pre @ l # mid @ post \<and> od_legs s x = l # mid
         \<and> (\<forall>l'\<in>set pre. leg_origin l' \<noteq> od_origin x)
         \<and> leg_origin l = od_origin x
         \<and> (\<forall>l'\<in>set mid. leg_origin l' \<noteq> od_destination x)
         \<and> (post = [] \<or> leg_origin (hd post) = od_destination x)"
    by (rule od_legs_span)
next
  assume "\<forall>l\<in>set (legs s). leg_origin l \<noteq> od_origin x"
  then show "od_legs s x = []" by (rule od_legs_no_origin)
next
  assume dist: "distinct [a, b, c, d]"
  then have neq: "a \<noteq> b" "a \<noteq> c" "a \<noteq> d" "b \<noteq> c" "b \<noteq> d" "c \<noteq> d"
    by auto
  show "\<exists>s'. load_itinerary [a, b, c, d] (Service n dt) = Inr s'
           \<and> map_of (ods s') (a, c) = Some (OD a c)
           \<and> map_of (ods s') (b, d) = Some (OD b d)
           \<and> od_legs s' (OD a c) = [Leg 0 a b, Leg 1 b c]
           \<and> od_legs s' (OD b d) = [Leg 1 b c, Leg 2 c d]"
    unfolding itinerary4 [OF dist] using neq
    by (auto simp: od_legs_def OD_def Leg_def)
qed

theorem od_legs_contiguous_witness:
  "(\<exists>l\<in>set [Leg 0 ply lpd, Leg 1 lpd msc]. leg_origin l = ply)
   \<and> (\<exists>pre l mid post.
        [Leg 0 ply lpd, Leg 1 lpd msc] = pre @ l # mid @ post
        \<and> od_legs \<lparr>service_name = ''7601'', departure_date = 7,
                   legs = [Leg 0 ply lpd, Leg 1 lpd msc], ods = []\<rparr> (OD ply msc) = l # mid
        \<and> leg_origin l = ply)
   \<and> od_legs \<lparr>service_name = ''7601'', departure_date = 7,
              legs = [Leg 0 ply lpd, Leg 1 lpd msc], ods = []\<rparr> (OD msc ply) = []
   \<and> distinct [ply, lpd, msc, Station 3 ''nce'']
   \<and> (\<exists>s'. load_itinerary [ply, lpd, msc, Station 3 ''nce''] (Service ''7601'' 7) = Inr s'
        \<and> od_legs s' (OD ply msc) = [Leg 0 ply lpd, Leg 1 lpd msc]
        \<and> od_legs s' (OD lpd (Station 3 ''nce'')) = [Leg 1 lpd msc, Leg 2 msc (Station 3 ''nce'')])"
proof -
  let ?s = "\<lparr>service_name = ''7601'', departure_date = 7,
             legs = [Leg 0 ply lpd, Leg 1 lpd msc], ods = []\<rparr>"
  have h1: "\<exists>l\<in>set (legs ?s). leg_origin l = od_origin (OD ply msc)"
    by (simp add: OD_def Leg_def)
  have h2: "\<forall>l\<in>set (legs ?s). leg_origin l \<noteq> od_origin (OD msc ply)"
    by (simp add: OD_def Leg_def stations_neq)
  have h3: "distinct [ply, lpd, msc, Station 3 ''nce'']"
    by (simp add: ply_def lpd_def msc_def Station_def)
  note thm1 = od_legs_contiguous [of ?s "OD ply msc" ply lpd msc "Station 3 ''nce''" "''7601''" 7]
  note thm2 = od_legs_contiguous [of ?s "OD msc ply" ply lpd msc "Station 3 ''nce''" "''7601''" 7]
  from thm1 h1 obtain pre l mid post where
    "legs ?s = pre @ l # mid @ post" "od_legs ?s (OD ply msc) = l # mid"
    "leg_origin l = od_origin (OD ply msc)"
    by blast
  then have c2: "\<exists>pre l mid post.
        [Leg 0 ply lpd, Leg 1 lpd msc] = pre @ l # mid @ post
        \<and> od_legs ?s (OD ply msc) = l # mid \<and> leg_origin l = ply"
    by (auto simp: OD_def)
  from thm2 h2 have c3: "od_legs ?s (OD msc ply) = []" by blast
  from thm1 h3 have c5: "\<exists>s'. load_itinerary [ply, lpd, msc, Station 3 ''nce''] (Service ''7601'' 7) = Inr s'
        \<and> od_legs s' (OD ply msc) = [Leg 0 ply lpd, Leg 1 lpd msc]
        \<and> od_legs s' (OD lpd (Station 3 ''nce'')) = [Leg 1 lpd msc, Leg 2 msc (Station 3 ''nce'')]"
    by blast
  have c1: "\<exists>l\<in>set [Leg 0 ply lpd, Leg 1 lpd msc]. leg_origin l = ply"
    by (simp add: Leg_def)
  from c1 c2 c3 h3 c5 show ?thesis by blast
qed

section \<open>Loading an itinerary\<close>

lemma update_absent_append:
  "k \<notin> fst ` set al \<Longrightarrow> AList.update k v al = al @ [(k, v)]"
  by (induction al) auto

lemma load_ods_foldl:
  "load_ods ps stn prev s =
     (if ps = [] then prev else Some (last ps),
      s\<lparr>ods := foldl (\<lambda>al p. AList.update (p, stn) (OD p stn) al) (ods s) ps\<rparr>)"
  by (induction ps arbitrary: prev s) simp_all

lemma foldl_update_fresh:
  "distinct ps \<Longrightarrow> \<forall>p\<in>set ps. (p, stn) \<notin> fst ` set al \<Longrightarrow>
     foldl (\<lambda>al p. AList.update (p, stn) (OD p stn) al) al ps =
       al @ map (\<lambda>p. ((p, stn), OD p stn)) ps"
proof (induction ps arbitrary: al)
  case Nil
  then show ?case by simp
next
  case (Cons p ps)
  from Cons.prems have fresh: "(p, stn) \<notin> fst ` set al" by simp
  have "\<forall>q\<in>set ps. (q, stn) \<notin> fst ` set (al @ [((p, stn), OD p stn)])"
    using Cons.prems by auto
  with Cons.IH [of "al @ [((p, stn), OD p stn)]"] Cons.prems fresh show ?case
    by (simp add: update_absent_append)
qed

lemma take_as_map_nth:
  "k \<le> length xs \<Longrightarrow> take k xs = map (\<lambda>i. xs ! i) [0..<k]"
  by (rule nth_equalityI) simp_all

lemma load_stations_from:
  assumes "distinct itinerary"
  shows "1 \<le> k \<Longrightarrow> k \<le> length itinerary \<Longrightarrow> length (legs s) = k - 1 \<Longrightarrow>
     snd ` fst ` set (ods s) \<subseteq> set (take k itinerary) \<Longrightarrow>
     load_stations itinerary (enumerate k (drop k itinerary)) prev s =
       Inr (s\<lparr>legs := legs s @ map (\<lambda>j. Leg (j - 1) (itinerary ! (j - 1)) (itinerary ! j))
                                   [k..<length itinerary],
              ods := ods s @ concat (map (\<lambda>j. map (\<lambda>i. ((itinerary ! i, itinerary ! j),
                                                      OD (itinerary ! i) (itinerary ! j))) [0..<j])
                                   [k..<length itinerary])\<rparr>)"
proof (induction "length itinerary - k" arbitrary: k s prev)
  case 0
  then show ?case by simp
next
  case (Suc m)
  let ?it = itinerary
  let ?stn = "?it ! k"
  from Suc.hyps(2) have k_lt: "k < length ?it" by simp
  have drop_k: "drop k ?it = ?stn # drop (Suc k) ?it"
    using k_lt by (simp add: Cons_nth_drop_Suc)
  have take_ne: "take k ?it \<noteq> []"
    using Suc.prems(1) k_lt by auto
  have last_take: "last (take k ?it) = ?it ! (k - 1)"
    using Suc.prems(1) k_lt take_ne by (simp add: last_conv_nth)
  have stn_new: "?stn \<notin> set (take k ?it)"
  proof
    assume "?stn \<in> set (take k ?it)"
    then obtain i where "i < k" "?it ! i = ?stn"
      using k_lt by (auto simp: in_set_conv_nth)
    with assms k_lt show False
      by (simp add: nth_eq_iff_index_eq)
  qed
  have fresh: "\<forall>p\<in>set (take k ?it). (p, ?stn) \<notin> fst ` set (ods s)"
  proof
    fix p
    show "(p, ?stn) \<notin> fst ` set (ods s)"
    proof
      assume "(p, ?stn) \<in> fst ` set (ods s)"
      then have "snd (p, ?stn) \<in> snd ` fst ` set (ods s)" by (rule imageI)
      with Suc.prems(4) stn_new show False by auto
    qed
  qed
  let ?new = "map (\<lambda>i. ((?it ! i, ?stn), OD (?it ! i) ?stn)) [0..<k]"
  have fold_eq: "foldl (\<lambda>al p. AList.update (p, ?stn) (OD p ?stn) al) (ods s) (take k ?it)
                   = ods s @ ?new"
  proof -
    have "foldl (\<lambda>al p. AList.update (p, ?stn) (OD p ?stn) al) (ods s) (take k ?it)
            = ods s @ map (\<lambda>p. ((p, ?stn), OD p ?stn)) (take k ?it)"
      using assms fresh by (intro foldl_update_fresh) (auto simp: distinct_take)
    also have "map (\<lambda>p. ((p, ?stn), OD p ?stn)) (take k ?it) = ?new"
      using k_lt by (simp add: take_as_map_nth comp_def)
    finally show ?thesis .
  qed
  let ?s2 = "s\<lparr>ods := ods s @ ?new,
               legs := legs s @ [Leg (k - 1) (?it ! (k - 1)) ?stn]\<rparr>"
  have step: "load_stations ?it (enumerate k (drop k ?it)) prev s
                = load_stations ?it (enumerate (Suc k) (drop (Suc k) ?it))
                    (Some (?it ! (k - 1))) ?s2"
    using Suc.prems(1,3) take_ne
    by (simp add: drop_k load_ods_foldl fold_eq last_take)
  have keys2: "snd ` fst ` set (ods ?s2) \<subseteq> set (take (Suc k) ?it)"
  proof -
    have "set (take k ?it) \<subseteq> set (take (Suc k) ?it)"
      by (simp add: set_take_subset_set_take)
    moreover have "?stn \<in> set (take (Suc k) ?it)"
      using k_lt by (simp add: take_Suc_conv_app_nth)
    ultimately show ?thesis using Suc.prems(4) by (auto simp: image_Un)
  qed
  have ih: "load_stations ?it (enumerate (Suc k) (drop (Suc k) ?it)) (Some (?it ! (k - 1))) ?s2 =
       Inr (?s2\<lparr>legs := legs ?s2 @ map (\<lambda>j. Leg (j - 1) (?it ! (j - 1)) (?it ! j))
                                   [Suc k..<length ?it],
              ods := ods ?s2 @ concat (map (\<lambda>j. map (\<lambda>i. ((?it ! i, ?it ! j),
                                                      OD (?it ! i) (?it ! j))) [0..<j])
                                   [Suc k..<length ?it])\<rparr>)"
  proof (rule Suc.hyps(1))
    show "m = length ?it - Suc k" using Suc.hyps(2) by simp
    show "1 \<le> Suc k" by simp
    show "Suc k \<le> length ?it" using k_lt by simp
    show "length (legs ?s2) = Suc k - 1" using Suc.prems(1,3) by simp
    show "snd ` fst ` set (ods ?s2) \<subseteq> set (take (Suc k) ?it)" by (rule keys2)
  qed
  have upt: "[k..<length ?it] = k # [Suc k..<length ?it]"
    using k_lt by (simp add: upt_conv_Cons)
  show ?case
    unfolding step ih upt by simp
qed

lemma load_itinerary_result:
  assumes "distinct itinerary"
  shows "load_itinerary itinerary (Service n d) =
     Inr ((Service n d)\<lparr>
       legs := map (\<lambda>i. Leg i (itinerary ! i) (itinerary ! Suc i)) [0..<length itinerary - 1],
       ods := concat (map (\<lambda>j. map (\<lambda>i. ((itinerary ! i, itinerary ! j),
                                          OD (itinerary ! i) (itinerary ! j))) [0..<j])
                       [1..<length itinerary])\<rparr>)"
proof (cases itinerary)
  case Nil
  then show ?thesis by (simp add: load_itinerary_def Service_def)
next
  case (Cons x xs)
  let ?s = "Service n d"
  have run: "load_itinerary itinerary ?s
               = load_stations itinerary (enumerate 1 (drop 1 itinerary)) None ?s"
    using Cons by (simp add: load_itinerary_def)
  have "load_stations itinerary (enumerate 1 (drop 1 itinerary)) None ?s =
       Inr (?s\<lparr>legs := legs ?s @ map (\<lambda>j. Leg (j - 1) (itinerary ! (j - 1)) (itinerary ! j))
                                   [1..<length itinerary],
              ods := ods ?s @ concat (map (\<lambda>j. map (\<lambda>i. ((itinerary ! i, itinerary ! j),
                                                      OD (itinerary ! i) (itinerary ! j))) [0..<j])
                                   [1..<length itinerary])\<rparr>)"
    using Cons by (intro load_stations_from [OF assms]) (simp_all add: Service_def)
  moreover have "map (\<lambda>j. Leg (j - 1) (itinerary ! (j - 1)) (itinerary ! j)) [1..<length itinerary]
        = map (\<lambda>i. Leg i (itinerary ! i) (itinerary ! Suc i)) [0..<length itinerary - 1]"
    by (rule nth_equalityI) (simp_all add: nth_append)
  ultimately show ?thesis
    unfolding run by (simp add: Service_def)
qed

lemma sum_list_upt_from_1: "2 * sum_list [1..<N] = N * (N - 1)"
proof (induction N)
  case 0
  then show ?case by simp
next
  case (Suc N)
  show ?case
  proof (cases "N = 0")
    case True
    then show ?thesis by simp
  next
    case False
    then have "[1..<Suc N] = [1..<N] @ [N]" by simp
    with Suc False show ?thesis
      by (cases N) (simp_all add: algebra_simps)
  qed
qed

lemma length_pairs:
  "length (concat (map (\<lambda>j. map (f j) [0..<j]) [1..<N])) = N * (N - 1) div 2"
proof -
  have "length (concat (map (\<lambda>j. map (f j) [0..<j]) [1..<N])) = sum_list [1..<N]"
    by (simp add: length_concat comp_def)
  with sum_list_upt_from_1 [of N] show ?thesis by simp
qed

lemma keys_pairs:
  "fst ` set (concat (map (\<lambda>j. map (\<lambda>i. ((xs ! i, xs ! j), g i j)) [0..<j]) [1..<N]))
     = {(xs ! i, xs ! j) | i j. i < j \<and> j < N}"
proof -
  have "map fst (concat (map (\<lambda>j. map (\<lambda>i. ((xs ! i, xs ! j), g i j)) [0..<j]) [1..<N]))
          = concat (map (\<lambda>j. map (\<lambda>i. (xs ! i, xs ! j)) [0..<j]) [1..<N])"
    by (simp add: map_concat comp_def)
  moreover have "set (concat (map (\<lambda>j. map (\<lambda>i. (xs ! i, xs ! j)) [0..<j]) [1..<N]))
          = {(xs ! i, xs ! j) | i j. i < j \<and> j < N}"
  proof (intro set_eqI iffI)
    fix k
    assume "k \<in> set (concat (map (\<lambda>j. map (\<lambda>i. (xs ! i, xs ! j)) [0..<j]) [1..<N]))"
    then obtain i j where "k = (xs ! i, xs ! j)" "i < j" "j < N" by auto
    then show "k \<in> {(xs ! i, xs ! j) | i j. i < j \<and> j < N}" by blast
  next
    fix k
    assume "k \<in> {(xs ! i, xs ! j) | i j. i < j \<and> j < N}"
    then obtain i j where k: "k = (xs ! i, xs ! j)" "i < j" "j < N" by auto
    then have "j \<in> set [1..<N]" "k \<in> set (map (\<lambda>i. (xs ! i, xs ! j)) [0..<j])"
      by auto
    then show "k \<in> set (concat (map (\<lambda>j. map (\<lambda>i. (xs ! i, xs ! j)) [0..<j]) [1..<N]))"
      unfolding set_concat by (intro UN_I [of "map (\<lambda>i. (xs ! i, xs ! j)) [0..<j]"]) auto
  qed
  ultimately show ?thesis by (metis set_map)
qed

lemma distinct_pairs:
  assumes "distinct xs"
  shows "M \<le> length xs \<Longrightarrow>
     distinct (map fst (concat (map (\<lambda>j. map (\<lambda>i. ((xs ! i, xs ! j), g i j)) [0..<j]) [1..<M])))"
proof (induction M)
  case 0
  then show ?case by simp
next
  case (Suc M)
  let ?row = "\<lambda>j. map (\<lambda>i. ((xs ! i, xs ! j), g i j)) [0..<j]"
  show ?case
  proof (cases "M = 0")
    case True
    then show ?thesis by simp
  next
    case False
    then have upt: "[1..<Suc M] = [1..<M] @ [M]" by simp
    have d0: "distinct (map fst (concat (map ?row [1..<M])))"
      using Suc by simp
    have d1: "distinct (map fst (?row M))"
      using assms Suc.prems
      by (auto simp: distinct_map inj_on_def nth_eq_iff_index_eq comp_def)
    have disj: "set (map fst (concat (map ?row [1..<M]))) \<inter> set (map fst (?row M)) = {}"
    proof (rule ccontr)
      assume "set (map fst (concat (map ?row [1..<M]))) \<inter> set (map fst (?row M)) \<noteq> {}"
      then obtain k where k1: "k \<in> fst ` set (concat (map ?row [1..<M]))"
        and k2: "k \<in> set (map fst (?row M))" unfolding set_map by blast
      from k1 obtain i j where "k = (xs ! i, xs ! j)" "i < j" "j < M"
        unfolding keys_pairs by auto
      moreover from k2 obtain i' where "k = (xs ! i', xs ! M)" by auto
      ultimately have "xs ! j = xs ! M" "j < M" by simp_all
      with assms Suc.prems show False by (simp add: nth_eq_iff_index_eq)
    qed
    from d0 d1 disj show ?thesis
      unfolding upt by simp
  qed
qed

lemma no_reverse_pairs:
  assumes "distinct xs" "N \<le> length xs"
    and "(a, b) \<in> {(xs ! i, xs ! j) | i j. i < j \<and> j < N}"
  shows "(b, a) \<notin> {(xs ! i, xs ! j) | i j. i < j \<and> j < N}"
proof
  assume "(b, a) \<in> {(xs ! i, xs ! j) | i j. i < j \<and> j < N}"
  then obtain i' j' where r: "b = xs ! i'" "a = xs ! j'" "i' < j'" "j' < N" by auto
  from assms(3) obtain i j where f: "a = xs ! i" "b = xs ! j" "i < j" "j < N" by auto
  from f r assms(1,2) have "i = j'" "j = i'"
    by (simp_all add: nth_eq_iff_index_eq)
  with f r show False by simp
qed

text \<open>
  Claim C5. \<^verbatim>\<open>load_itinerary\<close> on a fresh service and N pairwise distinct stations raises
  nothing and creates N - 1 legs, the leg of index i from station i to station i + 1,
  and N * (N - 1) / 2 ODs under distinct keys: the keys are exactly the pairs
  (station i, station j) with i < j, each with an OD from station i to station j with no
  passengers, and no key is the reverse of another. For N at most 1 there are no legs and
  no ODs.
\<close>

theorem load_itinerary_legs_and_ods:
  assumes "distinct itinerary"
  shows "\<exists>s'. load_itinerary itinerary (Service n d) = Inr s'
     \<and> legs s' = map (\<lambda>i. Leg i (itinerary ! i) (itinerary ! Suc i)) [0..<length itinerary - 1]
     \<and> length (legs s') = length itinerary - 1
     \<and> ods s' = concat (map (\<lambda>j. map (\<lambda>i. ((itinerary ! i, itinerary ! j),
                                             OD (itinerary ! i) (itinerary ! j))) [0..<j])
                          [1..<length itinerary])
     \<and> length (ods s') = length itinerary * (length itinerary - 1) div 2
     \<and> distinct (map fst (ods s'))
     \<and> fst ` set (ods s')
         = {(itinerary ! i, itinerary ! j) | i j. i < j \<and> j < length itinerary}
     \<and> (\<forall>a b. (a, b) \<in> fst ` set (ods s') \<longrightarrow> (b, a) \<notin> fst ` set (ods s'))
     \<and> (length itinerary \<le> 1 \<longrightarrow> legs s' = [] \<and> ods s' = [])"
proof -
  let ?N = "length itinerary"
  let ?L = "map (\<lambda>i. Leg i (itinerary ! i) (itinerary ! Suc i)) [0..<?N - 1]"
  let ?E = "concat (map (\<lambda>j. map (\<lambda>i. ((itinerary ! i, itinerary ! j),
                                      OD (itinerary ! i) (itinerary ! j))) [0..<j]) [1..<?N])"
  let ?s' = "(Service n d)\<lparr>legs := ?L, ods := ?E\<rparr>"
  have run: "load_itinerary itinerary (Service n d) = Inr ?s'"
    by (rule load_itinerary_result [OF assms])
  have len: "length ?E = ?N * (?N - 1) div 2"
    by (rule length_pairs)
  have dist: "distinct (map fst ?E)"
    by (rule distinct_pairs [OF assms]) simp
  have keys: "fst ` set ?E = {(itinerary ! i, itinerary ! j) | i j. i < j \<and> j < ?N}"
    by (rule keys_pairs)
  have norev: "\<forall>a b. (a, b) \<in> fst ` set ?E \<longrightarrow> (b, a) \<notin> fst ` set ?E"
    unfolding keys using no_reverse_pairs [OF assms, of ?N] by blast
  have small: "?N \<le> 1 \<longrightarrow> ?L = [] \<and> ?E = []"
    by auto
  have "legs ?s' = ?L" "ods ?s' = ?E" "length (legs ?s') = ?N - 1"
    by simp_all
  with run len dist keys norev small show ?thesis
    by (intro exI [of _ ?s']) (simp only: simp_thms)
qed

theorem load_itinerary_legs_and_ods_witness:
  "distinct [ply, lpd, msc]
   \<and> (\<exists>s'. load_itinerary [ply, lpd, msc] (Service ''7601'' 7) = Inr s'
        \<and> legs s' = [Leg 0 ply lpd, Leg 1 lpd msc]
        \<and> length (legs s') = 2
        \<and> ods s' = [((ply, lpd), OD ply lpd), ((ply, msc), OD ply msc), ((lpd, msc), OD lpd msc)]
        \<and> length (ods s') = 3)
   \<and> distinct ([] :: station list)
   \<and> (\<exists>s'. load_itinerary [] (Service ''7601'' 7) = Inr s' \<and> legs s' = [] \<and> ods s' = [])"
proof -
  have d3: "distinct [ply, lpd, msc]"
    by (simp add: stations_neq)
  have d0: "distinct ([] :: station list)"
    by simp
  from load_itinerary_legs_and_ods [OF d3, of "''7601''" 7]
  have c3: "\<exists>s'. load_itinerary [ply, lpd, msc] (Service ''7601'' 7) = Inr s'
        \<and> legs s' = [Leg 0 ply lpd, Leg 1 lpd msc]
        \<and> length (legs s') = 2
        \<and> ods s' = [((ply, lpd), OD ply lpd), ((ply, msc), OD ply msc), ((lpd, msc), OD lpd msc)]
        \<and> length (ods s') = 3"
    by (auto simp: upt_rec numeral_eq_Suc)
  from load_itinerary_legs_and_ods [OF d0, of "''7601''" 7]
  have c0: "\<exists>s'. load_itinerary [] (Service ''7601'' 7) = Inr s' \<and> legs s' = [] \<and> ods s' = []"
    by auto
  from d3 c3 d0 c0 show ?thesis by blast
qed

section \<open>The forecast\<close>

lemma forecast_prices_no_error:
  "fst ` set pr \<subseteq> dom dem \<Longrightarrow> snd (snd (snd (forecast_prices dem pr sold money))) = None"
proof (induction pr arbitrary: sold money)
  case Nil
  then show ?case by simp
next
  case (Cons a pr)
  obtain p c where a: "a = (p, c)" by (cases a)
  from Cons.prems a obtain d where d: "dem p = Some d" by auto
  from Cons.prems have "fst ` set pr \<subseteq> dom dem" by simp
  note ih = Cons.IH [OF this]
  show ?case
    using ih [of sold money] ih [of "sold + min (d - sold) c" "money + p * min (d - sold) c"]
    by (auto simp: a d Let_def split: prod.splits)
qed

lemma forecast_prices_level:
  "forecast_prices dem pr sold money = (pr', sold', money', e) \<Longrightarrow>
     list_all2 (\<lambda>(p', c') (p, c). p' = p \<and> c' \<le> c \<and> (0 \<le> c \<longrightarrow> 0 \<le> c')) pr' pr
     \<and> sold \<le> sold'
     \<and> sum_list (map snd pr) - sum_list (map snd pr') = sold' - sold"
proof (induction pr arbitrary: sold money pr' sold' money' e)
  case Nil
  then show ?case by simp
next
  case (Cons a pr)
  obtain p c where a: "a = (p, c)" by (cases a)
  show ?case
  proof (cases "dem p")
    case None
    with Cons.prems a show ?thesis
      by (auto simp: list_all2_same)
  next
    case (Some d)
    let ?x = "min (d - sold) c"
    show ?thesis
    proof (cases "?x \<le> 0")
      case True
      obtain r s m e0 where run: "forecast_prices dem pr sold money = (r, s, m, e0)"
        by (metis prod_cases4)
      with Cons.prems a Some True have res: "pr' = (p, c) # r" "sold' = s"
        by (simp_all add: Let_def)
      from Cons.IH [OF run] res a show ?thesis by simp
    next
      case False
      obtain r s m e0 where run:
        "forecast_prices dem pr (sold + ?x) (money + p * ?x) = (r, s, m, e0)"
        by (metis prod_cases4)
      with Cons.prems a Some False have res: "pr' = (p, c - ?x) # r" "sold' = s"
        by (simp_all add: Let_def)
      from Cons.IH [OF run] res a False show ?thesis by auto
    qed
  qed
qed

lemma forecast_days_run:
  assumes "\<forall>(day, dem)\<in>set dm. fst ` set pr \<subseteq> dom dem"
  shows "raised (forecast_days dm pr head_count money) = None
     \<and> map fst (yielded (forecast_days dm pr head_count money)) = map fst dm
     \<and> list_all2 (\<lambda>(p', c') (p, c). p' = p \<and> c' \<le> c \<and> (0 \<le> c \<longrightarrow> 0 \<le> c'))
         (pricing_after (forecast_days dm pr head_count money)) pr
     \<and> sum_list (map snd pr) - sum_list (map snd (pricing_after (forecast_days dm pr head_count money)))
         = sum_list (count_increments head_count (yielded (forecast_days dm pr head_count money)))"
  using assms
proof (induction dm arbitrary: pr head_count money)
  case Nil
  then show ?case by (auto simp: list_all2_same)
next
  case (Cons a dm)
  obtain day dem where a: "a = (day, dem)" by (cases a)
  from Cons.prems a have wf: "fst ` set pr \<subseteq> dom dem" by simp
  obtain pr1 sold money1 e where run: "forecast_prices dem pr 0 money = (pr1, sold, money1, e)"
    by (metis prod_cases4)
  from forecast_prices_no_error [OF wf, of 0 money] run have e: "e = None" by simp
  note lvl = forecast_prices_level [OF run]
  from lvl have rel1:
    "list_all2 (\<lambda>(p', c') (p, c). p' = p \<and> c' \<le> c \<and> (0 \<le> c \<longrightarrow> 0 \<le> c')) pr1 pr"
    by simp
  then have keys: "map fst pr1 = map fst pr"
    by (induction rule: list_all2_induct) auto
  then have "fst ` set pr1 = fst ` set pr"
    by (metis set_map)
  with Cons.prems a have wf1: "\<forall>(day, dem)\<in>set dm. fst ` set pr1 \<subseteq> dom dem"
    by simp
  let ?r = "forecast_days dm pr1 (head_count + sold) money1"
  note ih = Cons.IH [OF wf1, of "head_count + sold" money1]
  have unfold: "forecast_days (a # dm) pr head_count money
      = ?r\<lparr>yielded := (day, head_count + sold, money1) # yielded ?r\<rparr>"
    by (simp add: a run e Let_def)
  have rel: "list_all2 (\<lambda>(p', c') (p, c). p' = p \<and> c' \<le> c \<and> (0 \<le> c \<longrightarrow> 0 \<le> c'))
               (pricing_after ?r) pr"
  proof (rule list_all2_trans [OF _ _ rel1])
    show "list_all2 (\<lambda>(p', c') (p, c). p' = p \<and> c' \<le> c \<and> (0 \<le> c \<longrightarrow> 0 \<le> c'))
            (pricing_after ?r) pr1"
      using ih by simp
  qed auto
  from ih lvl rel show ?case
    unfolding unfold by (simp add: a)
qed

lemma forecast_days_shrinks:
  "list_all2 (\<lambda>(p', c') (p, c). p' = p \<and> c' \<le> c \<and> (0 \<le> c \<longrightarrow> 0 \<le> c'))
     (pricing_after (forecast_days dm pr head_count money)) pr"
proof (induction dm arbitrary: pr head_count money)
  case Nil
  then show ?case by (auto simp: list_all2_same)
next
  case (Cons a dm)
  obtain day dem where a: "a = (day, dem)" by (cases a)
  obtain pr1 sold money1 e where run: "forecast_prices dem pr 0 money = (pr1, sold, money1, e)"
    by (metis prod_cases4)
  from forecast_prices_level [OF run] have rel1:
    "list_all2 (\<lambda>(p', c') (p, c). p' = p \<and> c' \<le> c \<and> (0 \<le> c \<longrightarrow> 0 \<le> c')) pr1 pr"
    by simp
  show ?case
  proof (cases e)
    case None
    have "list_all2 (\<lambda>(p', c') (p, c). p' = p \<and> c' \<le> c \<and> (0 \<le> c \<longrightarrow> 0 \<le> c'))
            (pricing_after (forecast_days dm pr1 (head_count + sold) money1)) pr"
      by (rule list_all2_trans [OF _ Cons.IH rel1]) auto
    with None show ?thesis by (simp add: a run Let_def)
  next
    case (Some err)
    with rel1 show ?thesis by (simp add: a run)
  qed
qed


lemma forecast_prices_first_level:
  "\<exists>fill. (fill = 0 \<or> 0 < fill \<and> fill \<le> c)
      \<and> hd (fst (forecast_prices dem ((p, c) # rest) sold money)) = (p, c - fill)"
proof (cases "dem p")
  case None
  then show ?thesis by (intro exI [of _ 0]) simp
next
  case (Some d)
  show ?thesis
  proof (cases "min (d - sold) c \<le> 0")
    case True
    with Some show ?thesis
      by (intro exI [of _ 0]) (simp add: Let_def split: prod.splits)
  next
    case False
    with Some show ?thesis
      by (intro exI [of _ "min (d - sold) c"]) (auto simp: Let_def split: prod.splits)
  qed
qed



text \<open>
  Claim C10. When no inventory of the pricing is negative, no inventory of the pricing that
  a run of the forecast leaves is negative, whatever the demand matrix: each level keeps
  its price and ends between 0 and its inventory before. At each level the loop visits, the
  inventory decreases by a fill that is either 0 (the level is skipped) or positive and at
  most the inventory the level has at that moment.
\<close>

theorem forecast_never_oversells:
  assumes "\<forall>(p, c)\<in>set pr. 0 \<le> c"
  shows "(\<forall>(p, c)\<in>set (pricing_after (forecast self pr dm)). 0 \<le> c)
     \<and> list_all2 (\<lambda>(p', c') (p, c). p' = p \<and> 0 \<le> c' \<and> c' \<le> c)
         (pricing_after (forecast self pr dm)) pr
     \<and> (\<exists>fill. (fill = 0 \<or> 0 < fill \<and> fill \<le> c0)
          \<and> hd (fst (forecast_prices dem ((p0, c0) # rest) sold money)) = (p0, c0 - fill))"
proof -
  let ?r = "forecast self pr dm"
  have "list_all2 (\<lambda>(p', c') (p, c). p' = p \<and> c' \<le> c \<and> (0 \<le> c \<longrightarrow> 0 \<le> c'))
          (pricing_after ?r) pr"
    unfolding forecast_def by (rule forecast_days_shrinks)
  then have rel: "list_all2 (\<lambda>(p', c') (p, c). p' = p \<and> 0 \<le> c' \<and> c' \<le> c) (pricing_after ?r) pr"
    using assms by (induction rule: list_all2_induct) auto
  then have "\<forall>(p, c)\<in>set (pricing_after ?r). 0 \<le> c"
    by (induction rule: list_all2_induct) auto
  with rel forecast_prices_first_level [of c0 dem p0 rest sold money] show ?thesis
    by blast
qed

theorem forecast_never_oversells_witness:
  "(\<forall>(p, c)\<in>set scenario_pricing. 0 \<le> c) = True
   \<and> pricing_after (forecast od_ply_lpd scenario_pricing scenario_demand_matrix)
       = [(10, 0), (20, 0), (30, 0), (40, 0), (50, 0)]
   \<and> list_all2 (\<lambda>(p', c') (p, c). p' = p \<and> 0 \<le> c' \<and> c' \<le> c)
       (pricing_after (forecast od_ply_lpd scenario_pricing scenario_demand_matrix))
       scenario_pricing"
proof -
  have nonneg: "\<forall>(p, c)\<in>set scenario_pricing. 0 \<le> c"
    by (simp add: scenario_pricing_def)
  from forecast_never_oversells [OF nonneg, of od_ply_lpd scenario_demand_matrix] nonneg
  show ?thesis
    by (simp add: scenario_forecast)
qed

section \<open>The forecast against its reference definition\<close>

lemma map_of_middle:
  "p \<notin> fst ` set pre \<Longrightarrow> map_of (pre @ (p, c) # rest) p = Some c"
  by (induction pre) auto

lemma update_middle:
  "p \<notin> fst ` set pre \<Longrightarrow> AList.update p v (pre @ (p, c) # rest) = pre @ (p, v) # rest"
  by (induction pre) auto

lemma forecast_prices_fold:
  "distinct (map fst (pre @ items)) \<Longrightarrow> fst ` set items \<subseteq> dom dem \<Longrightarrow>
   forecast_prices dem items sold money = (items', sold', money', e) \<Longrightarrow>
     e = None \<and>
     fold (spec_level dem) (map fst items) (pre @ items, sold, money) = (pre @ items', sold', money')"
proof (induction items arbitrary: pre sold money items' sold' money' e)
  case Nil
  then show ?case by simp
next
  case (Cons a items)
  obtain p c where a: "a = (p, c)" by (cases a)
  from Cons.prems(2) a obtain d where d: "dem p = Some d" by auto
  from Cons.prems(1) a have fresh: "p \<notin> fst ` set pre" by auto
  from Cons.prems(2) have wf: "fst ` set items \<subseteq> dom dem" by simp
  let ?x = "min (d - sold) c"
  show ?case
  proof (cases "?x \<le> 0")
    case True
    obtain r s m e0 where run: "forecast_prices dem items sold money = (r, s, m, e0)"
      by (metis prod_cases4)
    with Cons.prems(3) a d True have res: "items' = (p, c) # r" "sold' = s" "money' = m" "e = e0"
      by (simp_all add: Let_def)
    have dist: "distinct (map fst ((pre @ [(p, c)]) @ items))"
      using Cons.prems(1) a by simp
    have level: "spec_level dem p (pre @ (p, c) # items, sold, money)
                   = ((pre @ [(p, c)]) @ items, sold, money)"
      using True
      by (simp add: spec_level_def map_of_middle [OF fresh] d Let_def del: map_of_append)
    from Cons.IH [OF dist wf run] res level show ?thesis
      by (simp add: a)
  next
    case False
    obtain r s m e0 where run:
      "forecast_prices dem items (sold + ?x) (money + p * ?x) = (r, s, m, e0)"
      by (metis prod_cases4)
    with Cons.prems(3) a d False have res:
      "items' = (p, c - ?x) # r" "sold' = s" "money' = m" "e = e0"
      by (simp_all add: Let_def)
    have dist: "distinct (map fst ((pre @ [(p, c - ?x)]) @ items))"
      using Cons.prems(1) a by simp
    have level: "spec_level dem p (pre @ (p, c) # items, sold, money)
                   = ((pre @ [(p, c - ?x)]) @ items, sold + ?x, money + p * ?x)"
      using False
      by (simp add: spec_level_def map_of_middle [OF fresh] update_middle [OF fresh] d Let_def
          del: map_of_append)
    from Cons.IH [OF dist wf run] res level show ?thesis
      by (simp add: a)
  qed
qed

lemma forecast_prices_spec_day:
  assumes "distinct (map fst pr)" "fst ` set pr \<subseteq> dom dem"
  shows "forecast_prices dem pr 0 money =
           (fst (spec_day dem pr money), fst (snd (spec_day dem pr money)),
            snd (snd (spec_day dem pr money)), None)"
proof -
  obtain r s m e where run: "forecast_prices dem pr 0 money = (r, s, m, e)"
    by (metis prod_cases4)
  from forecast_prices_fold [of "[]" pr dem 0 money r s m e] assms run
  show ?thesis by (simp add: spec_day_def)
qed

lemma forecast_days_spec_days:
  "distinct (map fst pr) \<Longrightarrow> \<forall>(day, dem)\<in>set dm. fst ` set pr \<subseteq> dom dem \<Longrightarrow>
     forecast_days dm pr head_count money =
       \<lparr>yielded = fst (spec_days dm pr head_count money),
        pricing_after = snd (spec_days dm pr head_count money), raised = None\<rparr>"
proof (induction dm arbitrary: pr head_count money)
  case Nil
  then show ?case by simp
next
  case (Cons a dm)
  obtain day dem where a: "a = (day, dem)" by (cases a)
  from Cons.prems a have wf: "fst ` set pr \<subseteq> dom dem" by simp
  obtain pr1 sold money1 where day: "spec_day dem pr money = (pr1, sold, money1)"
    by (metis prod_cases3)
  have run: "forecast_prices dem pr 0 money = (pr1, sold, money1, None)"
    using forecast_prices_spec_day [OF Cons.prems(1) wf, of money] day by simp
  from forecast_prices_level [OF run] have
    "list_all2 (\<lambda>(p', c') (p, c). p' = p \<and> c' \<le> c \<and> (0 \<le> c \<longrightarrow> 0 \<le> c')) pr1 pr"
    by simp
  then have keys: "map fst pr1 = map fst pr"
    by (induction rule: list_all2_induct) auto
  then have "fst ` set pr1 = fst ` set pr" by (metis set_map)
  with Cons.prems a have wf1: "\<forall>(day, dem)\<in>set dm. fst ` set pr1 \<subseteq> dom dem" by simp
  from Cons.prems(1) keys have d1: "distinct (map fst pr1)" by simp
  from Cons.IH [OF d1 wf1, of "head_count + sold" money1] show ?case
    by (simp add: a run day Let_def split: prod.splits)
qed

text \<open>
  Claim C1. For a pricing with distinct prices (as a dictionary's keys are, and as prices in
  ascending order are) and a demand matrix each of whose days has every price of the
  pricing, a run of \<open>forecast\<close> to its end raises nothing, and what it yields and the
  pricing it leaves are those of the day-by-day, level-by-level computation that the
  specification words: \<open>want = demand[p] - sold\<close>, \<open>fill = min(want, count)\<close>, a level with
  \<open>fill \<le> 0\<close> skipped and the scan continued, otherwise \<open>pricing[p]\<close> decreased by \<open>fill\<close>,
  \<open>sold\<close> increased by \<open>fill\<close> and \<open>money\<close> by \<open>p * fill\<close>, then \<open>head_count\<close> increased by
  \<open>sold\<close> and \<open>(day, head_count, money)\<close> emitted, from the OD's passenger count and the sum
  of its passengers' prices.
\<close>

theorem forecast_refines_spec:
  assumes "distinct (map fst pr)"
    and "\<forall>(day, dem)\<in>set dm. fst ` set pr \<subseteq> dom dem"
  shows "forecast self pr dm =
           \<lparr>yielded = fst (spec_forecast self pr dm),
            pricing_after = snd (spec_forecast self pr dm), raised = None\<rparr>"
  unfolding forecast_def spec_forecast_def
  by (rule forecast_days_spec_days [OF assms])

theorem forecast_refines_spec_witness:
  "distinct (map fst scenario_pricing)
   \<and> (\<forall>(day, dem)\<in>set scenario_demand_matrix. fst ` set scenario_pricing \<subseteq> dom dem) = True
   \<and> spec_forecast od_ply_lpd scenario_pricing scenario_demand_matrix
       = ([(- 7, 5, 150), (- 6, 6, 170), (- 5, 9, 260), (- 4, 12, 360),
           (- 3, 15, 480), (- 2, 18, 620), (- 1, 21, 770), (0, 21, 770)],
          [(10, 0), (20, 0), (30, 0), (40, 0), (50, 0)])"
proof -
  have d: "distinct (map fst scenario_pricing)"
    by (simp add: scenario_pricing_def)
  have wf: "\<forall>(day, dem)\<in>set scenario_demand_matrix. fst ` set scenario_pricing \<subseteq> dom dem"
    by (simp add: scenario_demand_matrix_def scenario_pricing_def)
  from forecast_refines_spec [OF d wf, of od_ply_lpd, unfolded scenario_forecast]
  have "spec_forecast od_ply_lpd scenario_pricing scenario_demand_matrix
       = ([(- 7, 5, 150), (- 6, 6, 170), (- 5, 9, 260), (- 4, 12, 360),
           (- 3, 15, 480), (- 2, 18, 620), (- 1, 21, 770), (0, 21, 770)],
          [(10, 0), (20, 0), (30, 0), (40, 0), (50, 0)])"
    by (simp add: prod_eq_iff)
  with d wf show ?thesis by simp
qed

section \<open>Two forecasts on one pricing\<close>

lemma level_mono:
  fixes d sq sp cq cp :: int
  assumes "cq \<le> cp" "sq \<le> sp"
  shows "(if min (d - sq) cq \<le> 0 then sq else sq + min (d - sq) cq)
       \<le> (if min (d - sp) cp \<le> 0 then sp else sp + min (d - sp) cp)"
  using assms by (auto simp: min_def)

lemma forecast_prices_mono:
  "list_all2 (\<lambda>(p', c') (p, c). p' = p \<and> c' \<le> c) Q P \<Longrightarrow> sq \<le> sp \<Longrightarrow>
     fst (snd (forecast_prices dem Q sq mq)) \<le> fst (snd (forecast_prices dem P sp mp))"
proof (induction arbitrary: sq sp mq mp rule: list_all2_induct)
  case Nil
  then show ?case by simp
next
  case (Cons x xs y ys)
  obtain p cq where x: "x = (p, cq)" by (cases x)
  with Cons.hyps(1) obtain cp where y: "y = (p, cp)" and le: "cq \<le> cp" by (cases y) auto
  show ?case
  proof (cases "dem p")
    case None
    with x y Cons.prems show ?thesis by simp
  next
    case (Some d)
    let ?sq = "if min (d - sq) cq \<le> 0 then sq else sq + min (d - sq) cq"
    let ?sp = "if min (d - sp) cp \<le> 0 then sp else sp + min (d - sp) cp"
    let ?mq = "if min (d - sq) cq \<le> 0 then mq else mq + p * min (d - sq) cq"
    let ?mp = "if min (d - sp) cp \<le> 0 then mp else mp + p * min (d - sp) cp"
    have q: "fst (snd (forecast_prices dem (x # xs) sq mq))
               = fst (snd (forecast_prices dem xs ?sq ?mq))"
      by (simp add: x Some Let_def split: prod.splits)
    have p: "fst (snd (forecast_prices dem (y # ys) sp mp))
               = fst (snd (forecast_prices dem ys ?sp ?mp))"
      by (simp add: y Some Let_def split: prod.splits)
    have "?sq \<le> ?sp" using le Cons.prems by (rule level_mono)
    then show ?thesis unfolding q p by (rule Cons.IH)
  qed
qed

lemma pricing_le_keys:
  "list_all2 (\<lambda>(p', c') (p, c). p' = p \<and> c' \<le> c) Q P \<Longrightarrow> map fst Q = map fst P"
  by (induction rule: list_all2_induct) auto

lemma pricing_le_trans:
  "list_all2 (\<lambda>(p', c') (p, c). p' = p \<and> c' \<le> (c::int)) A B \<Longrightarrow>
   list_all2 (\<lambda>(p', c') (p, c). p' = p \<and> c' \<le> c) B C \<Longrightarrow>
   list_all2 (\<lambda>(p', c') (p, c). p' = p \<and> c' \<le> c) A C"
proof -
  assume ab: "list_all2 (\<lambda>(p', c') (p, c). p' = p \<and> c' \<le> (c::int)) A B"
    and bc: "list_all2 (\<lambda>(p', c') (p, c). p' = p \<and> c' \<le> c) B C"
  show ?thesis
    by (rule list_all2_trans [OF _ ab bc]) auto
qed

lemma forecast_prices_le:
  "forecast_prices dem pr sold money = (pr', sold', money', e) \<Longrightarrow>
     list_all2 (\<lambda>(p', c') (p, c). p' = p \<and> c' \<le> c) pr' pr"
  by (drule forecast_prices_level) (auto elim: list_all2_mono)

lemma forecast_days_le:
  "list_all2 (\<lambda>(p', c') (p, c). p' = p \<and> c' \<le> c)
     (pricing_after (forecast_days dm pr head_count money)) pr"
  using forecast_days_shrinks [of dm pr head_count money]
  by (auto elim: list_all2_mono)

lemma forecast_days_second_run:
  "\<forall>(day, dem)\<in>set dm. fst ` set P \<subseteq> dom dem \<Longrightarrow>
   list_all2 (\<lambda>(p', c') (p, c). p' = p \<and> c' \<le> c) Q (pricing_after (forecast_days dm P hp mp)) \<Longrightarrow>
     list_all2 (\<le>) (count_increments hq (yielded (forecast_days dm Q hq mq)))
                    (count_increments hp (yielded (forecast_days dm P hp mp)))"
proof (induction dm arbitrary: P Q hp hq mp mq)
  case Nil
  then show ?case by simp
next
  case (Cons a dm)
  obtain day dem where a: "a = (day, dem)" by (cases a)
  from Cons.prems(1) a have wfP: "fst ` set P \<subseteq> dom dem" by simp
  obtain P1 sp mp1 eP where runP: "forecast_prices dem P 0 mp = (P1, sp, mp1, eP)"
    by (metis prod_cases4)
  from forecast_prices_no_error [OF wfP, of 0 mp] runP have eP: "eP = None" by simp
  let ?rP = "forecast_days dm P1 (hp + sp) mp1"
  have unfoldP: "forecast_days (a # dm) P hp mp
      = ?rP\<lparr>yielded := (day, hp + sp, mp1) # yielded ?rP\<rparr>"
    by (simp add: a runP eP Let_def)
  have P1_P: "list_all2 (\<lambda>(p', c') (p, c). p' = p \<and> c' \<le> c) P1 P"
    by (rule forecast_prices_le [OF runP])
  have fin_P1: "list_all2 (\<lambda>(p', c') (p, c). p' = p \<and> c' \<le> c) (pricing_after ?rP) P1"
    by (rule forecast_days_le)
  from Cons.prems(2) have Q_fin: "list_all2 (\<lambda>(p', c') (p, c). p' = p \<and> c' \<le> c) Q (pricing_after ?rP)"
    unfolding unfoldP by simp
  have Q_P1: "list_all2 (\<lambda>(p', c') (p, c). p' = p \<and> c' \<le> c) Q P1"
    by (rule pricing_le_trans [OF Q_fin fin_P1])
  have Q_P: "list_all2 (\<lambda>(p', c') (p, c). p' = p \<and> c' \<le> c) Q P"
    by (rule pricing_le_trans [OF Q_P1 P1_P])
  have "map fst Q = map fst P" by (rule pricing_le_keys [OF Q_P])
  then have "fst ` set Q = fst ` set P" by (metis set_map)
  with wfP have wfQ: "fst ` set Q \<subseteq> dom dem" by simp
  obtain Q1 sq mq1 eQ where runQ: "forecast_prices dem Q 0 mq = (Q1, sq, mq1, eQ)"
    by (metis prod_cases4)
  from forecast_prices_no_error [OF wfQ, of 0 mq] runQ have eQ: "eQ = None" by simp
  let ?rQ = "forecast_days dm Q1 (hq + sq) mq1"
  have unfoldQ: "forecast_days (a # dm) Q hq mq
      = ?rQ\<lparr>yielded := (day, hq + sq, mq1) # yielded ?rQ\<rparr>"
    by (simp add: a runQ eQ Let_def)
  have sold: "sq \<le> sp"
    using forecast_prices_mono [OF Q_P, of 0 0 dem mq mp] runQ runP by simp
  have Q1_Q: "list_all2 (\<lambda>(p', c') (p, c). p' = p \<and> c' \<le> c) Q1 Q"
    by (rule forecast_prices_le [OF runQ])
  have Q1_fin: "list_all2 (\<lambda>(p', c') (p, c). p' = p \<and> c' \<le> c) Q1 (pricing_after ?rP)"
    by (rule pricing_le_trans [OF Q1_Q Q_fin])
  have "map fst P1 = map fst P" by (rule pricing_le_keys [OF P1_P])
  then have "fst ` set P1 = fst ` set P" by (metis set_map)
  with Cons.prems(1) a have wf1: "\<forall>(day, dem)\<in>set dm. fst ` set P1 \<subseteq> dom dem" by simp
  from Cons.IH [OF wf1 Q1_fin, of "hq + sq" mq1] sold show ?case
    unfolding unfoldP unfoldQ by simp
qed

text \<open>
  Claim C8. When every day's demand has every price of the pricing, a second run of the
  forecast on the pricing that a first run left raises nothing, as the first, yields as
  many triplets, one per day of the demand matrix, and on every day sells at most the
  seats that the first run sold on that day (the day's increment of the emitted count).
\<close>

theorem forecast_twice_sells_less:
  assumes "\<forall>(day, dem)\<in>set dm. fst ` set pr \<subseteq> dom dem"
  shows "raised (forecast self pr dm) = None
     \<and> raised (forecast self (pricing_after (forecast self pr dm)) dm) = None
     \<and> length (yielded (forecast self pr dm)) = length dm
     \<and> length (yielded (forecast self (pricing_after (forecast self pr dm)) dm)) = length dm
     \<and> list_all2 (\<le>)
         (count_increments (int (length (passengers self)))
            (yielded (forecast self (pricing_after (forecast self pr dm)) dm)))
         (count_increments (int (length (passengers self)))
            (yielded (forecast self pr dm)))"
proof -
  let ?n = "int (length (passengers self))"
  let ?m = "sum_list (map price (passengers self))"
  let ?r1 = "forecast_days dm pr ?n ?m"
  let ?r2 = "forecast_days dm (pricing_after ?r1) ?n ?m"
  have le: "list_all2 (\<lambda>(p', c') (p, c). p' = p \<and> c' \<le> c) (pricing_after ?r1) pr"
    by (rule forecast_days_le)
  then have "map fst (pricing_after ?r1) = map fst pr" by (rule pricing_le_keys)
  then have "fst ` set (pricing_after ?r1) = fst ` set pr" by (metis set_map)
  with assms have wf2: "\<forall>(day, dem)\<in>set dm. fst ` set (pricing_after ?r1) \<subseteq> dom dem" by simp
  note run1 = forecast_days_run [OF assms, of ?n ?m]
  note run2 = forecast_days_run [OF wf2, of ?n ?m]
  from run1 have "map fst (yielded ?r1) = map fst dm" by (elim conjE)
  then have len1: "length (yielded ?r1) = length dm" by (metis length_map)
  from run2 have "map fst (yielded ?r2) = map fst dm" by (elim conjE)
  then have len2: "length (yielded ?r2) = length dm" by (metis length_map)
  have same: "list_all2 (\<lambda>(p', c') (p, c). p' = p \<and> c' \<le> c) (pricing_after ?r1) (pricing_after ?r1)"
    by (auto simp: list_all2_same)
  have incr: "list_all2 (\<le>) (count_increments ?n (yielded ?r2)) (count_increments ?n (yielded ?r1))"
    by (rule forecast_days_second_run [OF assms same])
  from run1 have r1: "raised ?r1 = None" by (elim conjE)
  from run2 have r2: "raised ?r2 = None" by (elim conjE)
  from r1 r2 len1 len2 incr show ?thesis
    unfolding forecast_def by (intro conjI)
qed

lemma scenario_second_forecast:
  "forecast od_ply_lpd [(10, 0), (20, 0), (30, 0), (40, 0), (50, 0)] scenario_demand_matrix =
     \<lparr>yielded = [(- 7, 4, 130), (- 6, 4, 130), (- 5, 4, 130), (- 4, 4, 130),
                 (- 3, 4, 130), (- 2, 4, 130), (- 1, 4, 130), (0, 4, 130)],
      pricing_after = [(10, 0), (20, 0), (30, 0), (40, 0), (50, 0)],
      raised = None\<rparr>"
  by (simp add: forecast_def od_ply_lpd_def scenario_manifest_def Passenger_def OD_def
      scenario_demand_matrix_def)

theorem forecast_twice_sells_less_witness:
  "(\<forall>(day, dem)\<in>set scenario_demand_matrix. fst ` set scenario_pricing \<subseteq> dom dem) = True
   \<and> count_increments (int (length (passengers od_ply_lpd)))
        (yielded (forecast od_ply_lpd scenario_pricing scenario_demand_matrix))
       = [1, 1, 3, 3, 3, 3, 3, 0]
   \<and> count_increments (int (length (passengers od_ply_lpd)))
        (yielded (forecast od_ply_lpd
           (pricing_after (forecast od_ply_lpd scenario_pricing scenario_demand_matrix))
           scenario_demand_matrix))
       = [0, 0, 0, 0, 0, 0, 0, 0]
   \<and> list_all2 (\<le>)
        (count_increments (int (length (passengers od_ply_lpd)))
           (yielded (forecast od_ply_lpd
              (pricing_after (forecast od_ply_lpd scenario_pricing scenario_demand_matrix))
              scenario_demand_matrix)))
        (count_increments (int (length (passengers od_ply_lpd)))
           (yielded (forecast od_ply_lpd scenario_pricing scenario_demand_matrix)))"
proof -
  have wf: "\<forall>(day, dem)\<in>set scenario_demand_matrix. fst ` set scenario_pricing \<subseteq> dom dem"
    by (simp add: scenario_demand_matrix_def scenario_pricing_def)
  have n: "int (length (passengers od_ply_lpd)) = 4"
    by (simp add: od_ply_lpd_def scenario_manifest_def OD_def)
  have first: "count_increments (int (length (passengers od_ply_lpd)))
        (yielded (forecast od_ply_lpd scenario_pricing scenario_demand_matrix))
       = [1, 1, 3, 3, 3, 3, 3, 0]"
    unfolding scenario_forecast n by simp
  have second: "count_increments (int (length (passengers od_ply_lpd)))
        (yielded (forecast od_ply_lpd
           (pricing_after (forecast od_ply_lpd scenario_pricing scenario_demand_matrix))
           scenario_demand_matrix))
       = [0, 0, 0, 0, 0, 0, 0, 0]"
    unfolding scenario_forecast n by (simp add: scenario_second_forecast)
  from forecast_twice_sells_less [OF wf, of od_ply_lpd]
  have le: "list_all2 (\<le>)
        (count_increments (int (length (passengers od_ply_lpd)))
           (yielded (forecast od_ply_lpd
              (pricing_after (forecast od_ply_lpd scenario_pricing scenario_demand_matrix))
              scenario_demand_matrix)))
        (count_increments (int (length (passengers od_ply_lpd)))
           (yielded (forecast od_ply_lpd scenario_pricing scenario_demand_matrix)))"
    by (elim conjE)
  from wf have "(\<forall>(day, dem)\<in>set scenario_demand_matrix. fst ` set scenario_pricing \<subseteq> dom dem) = True"
    by (rule eqTrueI)
  with first second le show ?thesis
    by (intro conjI)
qed

section \<open>The history\<close>





















end
